theory Spec2Isabelle
  imports Main "HOL-Library.Sublist"
begin

section \<open>The replay cache: \<open>_RingStorageInternal\<close> and \<open>_RingStorage\<close>\<close>

text \<open>
  A cache entry is the pair \<open>(is_key, payload)\<close> that \<open>_data_cache\<close> stores; the deque is a
  list, oldest entry first.

  The sizes and counters of the cache are C++ \<open>int\<close>, 32 bits wide. They are integers here,
  and every sum, difference and product that \<open>computeGopSize\<close> forms is cut back to 32 bits
  by \<open>int32\<close>, the two's-complement wrap-around that the compiled code shows (the language
  itself leaves signed overflow undefined). A statement about the value of a counter
  therefore carries the bound under which nothing wraps.
\<close>

definition int32 :: "int \<Rightarrow> int" where
  "int32 x = (x + 2 ^ 31) mod 2 ^ 32 - 2 ^ 31"

type_synonym 'a entry = "bool \<times> 'a"

record 'a RingStorageInternal =
  data_cache :: "'a entry list"
  si_max_size :: int

definition RingStorageInternal_new :: "int \<Rightarrow> 'a RingStorageInternal" where
  "RingStorageInternal_new max_size = \<lparr>data_cache = [], si_max_size = max_size\<rparr>"

text \<open>
  \<open>_RingStorageInternal::write\<close>. The test \<open>_data_cache.size() > _max_size\<close> compares a
  \<open>size_t\<close> with an \<open>int\<close>: the \<open>int\<close> is converted to unsigned, so a negative
  \<open>_max_size\<close> is larger than any size and nothing is evicted. \<open>pop_front\<close> on the
  (non-empty) deque is \<open>tl\<close>.
\<close>

definition RingStorageInternal_write ::
    "'a \<Rightarrow> bool \<Rightarrow> 'a RingStorageInternal \<Rightarrow> 'a RingStorageInternal" where
  "RingStorageInternal_write data is_key s =
     (let c1 = (if is_key then [] else data_cache s);
          c2 = c1 @ [(is_key, data)];
          c3 = (if 0 \<le> si_max_size s \<and> int (length c2) > si_max_size s then tl c2 else c2)
      in s\<lparr>data_cache := c3\<rparr>)"

definition RingStorageInternal_clone :: "'a RingStorageInternal \<Rightarrow> 'a RingStorageInternal" where
  "RingStorageInternal_clone s = \<lparr>data_cache = data_cache s, si_max_size = si_max_size s\<rparr>"

definition RING_MIN_SIZE :: int where
  "RING_MIN_SIZE = 1"

record 'a RingStorage =
  storage_internal :: "'a RingStorageInternal"
  beset_size :: int
  total_count :: int
  last_key_count :: int
  can_resize :: bool
  max_size :: int

text \<open>
  The constructor \<open>_RingStorage(size, max_size)\<close>. With \<open>size > 0\<close> the source leaves the
  member \<open>_max_size\<close> uninitialised; it is read only by \<open>computeGopSize\<close> after the test of
  \<open>_can_resize\<close>, which is false then, so the value stored here for it is never used.
\<close>

definition RingStorage_new :: "int \<Rightarrow> int \<Rightarrow> 'a RingStorage" where
  "RingStorage_new sz max_sz =
     (if sz \<le> 0
      then \<lparr>storage_internal = RingStorageInternal_new max_sz, beset_size = 0, total_count = 0,
            last_key_count = 0, can_resize = True, max_size = max_sz\<rparr>
      else \<lparr>storage_internal = RingStorageInternal_new sz, beset_size = 0, total_count = 0,
            last_key_count = 0, can_resize = False, max_size = max_sz\<rparr>)"

text \<open>\<open>computeGopSize\<close> returns whether the cache was resized, and the updated storage.\<close>

definition computeGopSize :: "bool \<Rightarrow> 'a RingStorage \<Rightarrow> bool \<times> 'a RingStorage" where
  "computeGopSize is_key s =
     (if \<not> can_resize s \<or> beset_size s \<noteq> 0 then (False, s)
      else let s1 = s\<lparr>total_count := int32 (total_count s + 1)\<rparr> in
        if \<not> is_key then (False, s1)
        else if last_key_count s1 = 0 then (False, s1\<lparr>last_key_count := total_count s1\<rparr>)
        else let b0 = int32 (int32 (total_count s1 - last_key_count s1) * 2);
                 b1 = (if b0 > max_size s1 then max_size s1 else b0);
                 b2 = (if b1 < RING_MIN_SIZE then RING_MIN_SIZE else b1)
             in (True, s1\<lparr>beset_size := b2, storage_internal := RingStorageInternal_new b2\<rparr>))"

definition RingStorage_write :: "'a \<Rightarrow> bool \<Rightarrow> 'a RingStorage \<Rightarrow> 'a RingStorage" where
  "RingStorage_write data is_key s =
     (let s1 = snd (computeGopSize is_key s)
      in s1\<lparr>storage_internal := RingStorageInternal_write data is_key (storage_internal s1)\<rparr>)"

definition getCache :: "'a RingStorage \<Rightarrow> 'a entry list" where
  "getCache s = data_cache (storage_internal s)"

definition maxSize :: "'a RingStorage \<Rightarrow> int" where
  "maxSize s = si_max_size (storage_internal s)"

definition RingStorage_clone :: "'a RingStorage \<Rightarrow> 'a RingStorage" where
  "RingStorage_clone s =
     \<lparr>storage_internal = RingStorageInternal_clone (storage_internal s),
      beset_size = beset_size s, total_count = total_count s,
      last_key_count = last_key_count s, can_resize = can_resize s, max_size = max_size s\<rparr>"

text \<open>A sequence of writes, applied in order.\<close>

fun write_all :: "'a entry list \<Rightarrow> 'a RingStorage \<Rightarrow> 'a RingStorage" where
  "write_all [] s = s"
| "write_all (w # ws) s = write_all ws (RingStorage_write (snd w) (fst w) s)"


section \<open>The subscriber: \<open>_RingReader\<close>\<close>

text \<open>
  A user-supplied function object is known by its identity only. What calling it does is
  kept as a trace: \<open>read_calls\<close> lists, in order, the invocations of user read callbacks
  with the frame passed. The initial callback and the one installed by \<open>setReadCB(nullptr)\<close>
  are the empty lambda, written \<open>None\<close>; calling it leaves no trace.

  The member \<open>_storage\<close> is a shared pointer to the storage of the owning dispatcher; the
  operations that read through it take that storage as an argument.
\<close>

type_synonym callback = nat

record 'a RingReader =
  read_cb :: "callback option"
  detach_cb :: "callback option"
  use_cache :: bool
  start_on_read :: bool
  ignored_count :: int
  read_calls :: "(callback \<times> 'a) list"

definition RingReader_new :: "bool \<Rightarrow> 'a RingReader" where
  "RingReader_new use_cache_arg =
     \<lparr>read_cb = None, detach_cb = None, use_cache = use_cache_arg, start_on_read = False,
      ignored_count = 0, read_calls = []\<rparr>"

text \<open>The call \<open>_read_cb(data)\<close>.\<close>

definition call_read_cb :: "'a \<Rightarrow> 'a RingReader \<Rightarrow> 'a RingReader" where
  "call_read_cb data r =
     (case read_cb r of
        None \<Rightarrow> r
      | Some cb \<Rightarrow> r\<lparr>read_calls := read_calls r @ [(cb, data)]\<rparr>)"

definition onRead :: "'a RingStorage \<Rightarrow> 'a \<Rightarrow> bool \<Rightarrow> 'a RingReader \<Rightarrow> 'a RingReader" where
  "onRead st data is_key r =
     (if start_on_read r \<or> \<not> use_cache r then call_read_cb data r
      else if \<not> start_on_read r \<and> is_key
        then call_read_cb data (r\<lparr>start_on_read := True\<rparr>)
      else let r1 = r\<lparr>ignored_count := ignored_count r + 1\<rparr> in
        if ignored_count r1 \<ge> maxSize st then r1\<lparr>start_on_read := True\<rparr> else r1)"

text \<open>The loop of \<open>flushGop\<close> over the cache, oldest entry first.\<close>

fun replay :: "'a RingStorage \<Rightarrow> 'a entry list \<Rightarrow> 'a RingReader \<Rightarrow> 'a RingReader" where
  "replay st [] r = r"
| "replay st (pr # cache) r = replay st cache (onRead st (snd pr) (fst pr) r)"

definition flushGop :: "'a RingStorage \<Rightarrow> 'a RingReader \<Rightarrow> 'a RingReader" where
  "flushGop st r = (if \<not> use_cache r then r else replay st (getCache st) r)"

definition setReadCB :: "callback option \<Rightarrow> 'a RingStorage \<Rightarrow> 'a RingReader \<Rightarrow> 'a RingReader" where
  "setReadCB cb st r =
     (case cb of
        None \<Rightarrow> r\<lparr>read_cb := None\<rparr>
      | Some f \<Rightarrow> flushGop st (r\<lparr>ignored_count := 0, start_on_read := False, read_cb := Some f\<rparr>))"

definition setDetachCB :: "callback option \<Rightarrow> 'a RingReader \<Rightarrow> 'a RingReader" where
  "setDetachCB cb r = r\<lparr>detach_cb := cb\<rparr>"

section \<open>The execution context\<close>

text \<open>
  Modelled from the spec: \<open>EventPoller\<close> (\<open>Poller/EventPoller.h\<close>) is not part of the
  sources at hand. The spec asks of an execution context a stable identity, usable as a map
  key, and \<open>isCurrentThread() -> bool\<close>. A poller is identified by the thread that runs
  its loop, and the thread that makes a call is an argument of the call.
\<close>

type_synonym thread = nat

datatype EventPoller = EventPoller (loop_thread: thread)

definition isCurrentThread :: "EventPoller \<Rightarrow> thread \<Rightarrow> bool" where
  "isCurrentThread poller caller = (loop_thread poller = caller)"

section \<open>The per-context dispatcher: \<open>_RingReaderDispatcher\<close>\<close>

text \<open>
  Readers are heap objects owned by their callers; \<open>_reader_map\<close> maps the address of a
  reader to a weak pointer to it. The model keeps the reader object itself under its address.
  The address that \<open>new RingReader\<close> returns is an argument of \<open>attach\<close>. The exception
  thrown by \<open>attach\<close> is the error value; it is thrown before anything is changed.
  A successful \<open>attach\<close> also returns the arguments \<open>(_reader_size, add_flag)\<close> with which
  it has called \<open>_on_size_changed\<close>.
\<close>

type_synonym addr = nat

datatype error = Attach_not_in_poller_thread

record 'a RingReaderDispatcher =
  reader_size :: int
  dispatcher_storage :: "'a RingStorage"
  reader_map :: "addr \<rightharpoonup> 'a RingReader"

definition RingReaderDispatcher_new :: "'a RingStorage \<Rightarrow> 'a RingReaderDispatcher" where
  "RingReaderDispatcher_new st =
     \<lparr>reader_size = 0, dispatcher_storage = st, reader_map = Map.empty\<rparr>"

definition RingReaderDispatcher_attach ::
    "thread \<Rightarrow> addr \<Rightarrow> EventPoller \<Rightarrow> bool \<Rightarrow> 'a RingReaderDispatcher
      \<Rightarrow> error + (addr \<times> 'a RingReaderDispatcher \<times> (int \<times> bool))" where
  "RingReaderDispatcher_attach caller a poller use_cache_arg d =
     (if \<not> isCurrentThread poller caller then Inl Attach_not_in_poller_thread
      else let d1 = d\<lparr>reader_map := (reader_map d)(a \<mapsto> RingReader_new use_cache_arg)\<rparr>;
               d2 = d1\<lparr>reader_size := reader_size d1 + 1\<rparr>
           in Inr (a, d2, (reader_size d2, True)))"

definition readerCount :: "'a RingReaderDispatcher \<Rightarrow> int" where
  "readerCount d = reader_size d"

section \<open>The buffer: \<open>RingBuffer\<close>\<close>

text \<open>
  The effects on the collaborators are traces: \<open>delegate_calls\<close> lists the calls of
  \<open>onWrite\<close> on a delegate, \<open>reader_changed_calls\<close> the calls of the reader-changed
  callback, and \<open>posted p\<close> the tasks handed to \<open>async\<close> of poller \<open>p\<close>, oldest first.
  A dispatcher is kept in \<open>dispatcher_map\<close> under its poller; the task posted by
  \<open>write\<close> stands for the call of \<open>write\<close> on the dispatcher registered at that moment.
\<close>

datatype 'a task = Dispatcher_write 'a bool

record 'a RingBuffer =
  storage :: "'a RingStorage"
  delegate :: "callback option"
  on_reader_changed :: "callback option"
  dispatcher_map :: "EventPoller \<rightharpoonup> 'a RingReaderDispatcher"
  delegate_calls :: "(callback \<times> 'a \<times> bool) list"
  reader_changed_calls :: "(callback \<times> EventPoller \<times> int \<times> bool) list"
  posted :: "EventPoller \<Rightarrow> 'a task list"

definition RingBuffer_new :: "int \<Rightarrow> int \<Rightarrow> callback option \<Rightarrow> 'a RingBuffer" where
  "RingBuffer_new sz max_sz cb =
     \<lparr>storage = RingStorage_new sz max_sz, delegate = None, on_reader_changed = cb,
      dispatcher_map = Map.empty, delegate_calls = [], reader_changed_calls = [],
      posted = (\<lambda>p. [])\<rparr>"

definition RingBuffer_write :: "'a \<Rightarrow> bool \<Rightarrow> 'a RingBuffer \<Rightarrow> 'a RingBuffer" where
  "RingBuffer_write data is_key b =
     (case delegate b of
        Some dl \<Rightarrow> b\<lparr>delegate_calls := delegate_calls b @ [(dl, data, is_key)]\<rparr>
      | None \<Rightarrow>
          b\<lparr>storage := RingStorage_write data is_key (storage b),
            posted := (\<lambda>p. case dispatcher_map b p of
                              None \<Rightarrow> posted b p
                            | Some d \<Rightarrow> posted b p @ [Dispatcher_write data is_key])\<rparr>)"

definition setDelegate :: "callback option \<Rightarrow> 'a RingBuffer \<Rightarrow> 'a RingBuffer" where
  "setDelegate dl b = b\<lparr>delegate := dl\<rparr>"

definition onSizeChanged :: "EventPoller \<Rightarrow> int \<Rightarrow> bool \<Rightarrow> 'a RingBuffer \<Rightarrow> 'a RingBuffer" where
  "onSizeChanged poller n add_flag b =
     (let b1 = (if n = 0 then b\<lparr>dispatcher_map := (dispatcher_map b)(poller := None)\<rparr> else b)
      in case on_reader_changed b1 of
           None \<Rightarrow> b1
         | Some cb \<Rightarrow>
             b1\<lparr>reader_changed_calls := reader_changed_calls b1 @ [(cb, poller, n, add_flag)]\<rparr>)"

text \<open>
  \<open>RingBuffer::attach\<close> returns the handle or the exception, together with the buffer as
  the call leaves it: the dispatcher is looked up or created under the lock first, and
  \<open>dispatcher->attach\<close> runs afterwards. The buffer is owned by a shared pointer, as
  \<open>shared_from_this\<close> requires, and \<open>_on_size_changed\<close> of its dispatchers is bound to
  \<open>onSizeChanged\<close> of the buffer, which is alive during the call.
\<close>

definition RingBuffer_attach ::
    "thread \<Rightarrow> addr \<Rightarrow> EventPoller \<Rightarrow> bool \<Rightarrow> 'a RingBuffer \<Rightarrow> (error + addr) \<times> 'a RingBuffer" where
  "RingBuffer_attach caller a poller use_cache_arg b =
     (let dispatcher = (case dispatcher_map b poller of
                          None \<Rightarrow> RingReaderDispatcher_new (RingStorage_clone (storage b))
                        | Some d \<Rightarrow> d);
          b1 = b\<lparr>dispatcher_map := (dispatcher_map b)(poller \<mapsto> dispatcher)\<rparr>
      in case RingReaderDispatcher_attach caller a poller use_cache_arg dispatcher of
           Inl e \<Rightarrow> (Inl e, b1)
         | Inr (reader, d', (n, add_flag)) \<Rightarrow>
             (Inr reader,
              onSizeChanged poller n add_flag
                (b1\<lparr>dispatcher_map := (dispatcher_map b1)(poller \<mapsto> d')\<rparr>)))"

section \<open>Notions of the specification\<close>

text \<open>
  The part of a write sequence that starts at its most recent boundary write (the whole
  sequence when it has no boundary write): \<open>upto_boundary\<close> walks from the newest write back
  to the first boundary it meets.
\<close>

fun upto_boundary :: "'a entry list \<Rightarrow> 'a entry list" where
  "upto_boundary [] = []"
| "upto_boundary (w # ws) = (if fst w then [w] else w # upto_boundary ws)"

definition since_boundary :: "'a entry list \<Rightarrow> 'a entry list" where
  "since_boundary ws = rev (upto_boundary (rev ws))"

text \<open>\<open>clamp x lo hi\<close> as the specification writes it; the lower bound wins when \<open>hi < lo\<close>.\<close>

definition clamp :: "int \<Rightarrow> int \<Rightarrow> int \<Rightarrow> int" where
  "clamp x lo hi = max lo (min hi x)"

text \<open>The readers registered with the dispatcher of a poller, none when it has no dispatcher.\<close>

definition readers_of :: "'a RingBuffer \<Rightarrow> EventPoller \<Rightarrow> (addr \<rightharpoonup> 'a RingReader)" where
  "readers_of b p = (case dispatcher_map b p of None \<Rightarrow> Map.empty | Some d \<Rightarrow> reader_map d)"

text \<open>
  The live count of the dispatcher of a poller, 0 when it has no dispatcher;
  \<open>RingBuffer::readerCount\<close> is the sum of these over the dispatcher map.
\<close>

definition live_count :: "'a RingBuffer \<Rightarrow> EventPoller \<Rightarrow> int" where
  "live_count b p = (case dispatcher_map b p of None \<Rightarrow> 0 | Some d \<Rightarrow> readerCount d)"

text \<open>A sequence of writes to the buffer, applied in order.\<close>

fun writes :: "'a entry list \<Rightarrow> 'a RingBuffer \<Rightarrow> 'a RingBuffer" where
  "writes [] b = b"
| "writes (w # ws) b = writes ws (RingBuffer_write (snd w) (fst w) b)"

text \<open>
  What holds of an auto-sizing cache after any writes, wrap-around or not: \<open>n\<close> is the
  number of boundary writes so far.
\<close>

definition autosize_inv :: "int \<Rightarrow> 'a RingStorage \<Rightarrow> nat \<Rightarrow> bool" where
  "autosize_inv H s n \<longleftrightarrow>
     can_resize s \<and> max_size s = H \<and>
     (last_key_count s = 0 \<or> 1 \<le> n) \<and>
     (beset_size s = 0 \<or>
        (1 \<le> beset_size s \<and> beset_size s \<le> max 1 H \<and> maxSize s = beset_size s \<and> 2 \<le> n))"


section \<open>Properties of the cache\<close>

lemma write_all_append: "write_all (xs @ ys) s = write_all ys (write_all xs s)"
  by (induction xs arbitrary: s) simp_all

lemma write_all_snoc:
  "write_all (ws @ [w]) s = RingStorage_write (snd w) (fst w) (write_all ws s)"
  by (simp add: write_all_append)

lemma since_boundary_Nil: "since_boundary [] = []"
  by (simp add: since_boundary_def)

lemma since_boundary_snoc:
  "since_boundary (ws @ [w]) = (if fst w then [w] else since_boundary ws @ [w])"
  by (simp add: since_boundary_def)

lemma since_boundary_suffix: "suffix (since_boundary ws) ws"
proof (induction ws rule: rev_induct)
  case Nil
  show ?case by (simp add: since_boundary_Nil)
next
  case (snoc w ws)
  then show ?case by (simp add: since_boundary_snoc suffix_def)
qed

lemma computeGopSize_capacity:
  "0 \<le> maxSize s \<Longrightarrow> 0 \<le> maxSize (snd (computeGopSize k s))"
  by (simp add: computeGopSize_def maxSize_def Let_def RingStorageInternal_new_def
      RING_MIN_SIZE_def)

lemma computeGopSize_resized:
  "fst (computeGopSize k s) \<Longrightarrow>
     getCache (snd (computeGopSize k s)) = [] \<and> 1 \<le> maxSize (snd (computeGopSize k s))"
  by (auto simp add: computeGopSize_def maxSize_def getCache_def Let_def
      RingStorageInternal_new_def RING_MIN_SIZE_def split: if_splits)

lemma computeGopSize_not_resized:
  "\<not> fst (computeGopSize k s) \<Longrightarrow>
     storage_internal (snd (computeGopSize k s)) = storage_internal s"
  by (auto simp add: computeGopSize_def Let_def split: if_splits)

lemma internal_write_key:
  "data_cache (RingStorageInternal_write d True si) =
     (if si_max_size si = 0 then [] else [(True, d)])"
  by (simp add: RingStorageInternal_write_def Let_def)

lemma internal_write_nonkey:
  "data_cache (RingStorageInternal_write d False si) =
     (if 0 \<le> si_max_size si \<and> int (length (data_cache si)) + 1 > si_max_size si
      then tl (data_cache si @ [(False, d)]) else data_cache si @ [(False, d)])"
  by (auto simp add: RingStorageInternal_write_def Let_def)

lemma internal_write_max: "si_max_size (RingStorageInternal_write d k si) = si_max_size si"
  by (simp add: RingStorageInternal_write_def Let_def)

text \<open>The entries stay a suffix of the writes since the last boundary, whatever the capacity.\<close>

lemma internal_write_suffix:
  assumes "suffix (data_cache si) g"
  shows "suffix (data_cache (RingStorageInternal_write d k si))
           (if k then [(k, d)] else g @ [(k, d)])"
proof (cases k)
  case True
  then show ?thesis by (simp add: internal_write_key)
next
  case False
  have kept: "suffix (data_cache si @ [(False, d)]) (g @ [(False, d)])"
    using assms by simp
  have popped: "suffix (tl (data_cache si @ [(False, d)])) (g @ [(False, d)])"
    using kept suffix_order.trans suffix_tl by blast
  show ?thesis using False kept popped by (simp add: internal_write_nonkey)
qed

lemma write_suffix:
  assumes "suffix (getCache s) g"
  shows "suffix (getCache (RingStorage_write d k s)) (if k then [(k, d)] else g @ [(k, d)])"
proof -
  let ?s1 = "snd (computeGopSize k s)"
  have before: "suffix (getCache ?s1) g"
  proof (cases "fst (computeGopSize k s)")
    case True
    from computeGopSize_resized[OF True] show ?thesis by simp
  next
    case False
    then show ?thesis
      using computeGopSize_not_resized[of k s] assms by (simp add: getCache_def)
  qed
  have c: "getCache (RingStorage_write d k s) =
             data_cache (RingStorageInternal_write d k (storage_internal ?s1))"
    by (simp add: RingStorage_write_def getCache_def Let_def)
  show ?thesis
    using internal_write_suffix[of "storage_internal ?s1" g d k] before
    unfolding c by (simp add: getCache_def)
qed

lemma cache_suffix:
  "suffix (getCache (write_all ws (RingStorage_new sz max_sz))) (since_boundary ws)"
proof (induction ws rule: rev_induct)
  case Nil
  show ?case
    by (simp add: RingStorage_new_def getCache_def RingStorageInternal_new_def since_boundary_Nil)
next
  case (snoc w ws)
  have w: "(fst w, snd w) = w" by simp
  have g: "(if fst w then [(fst w, snd w)] else since_boundary ws @ [(fst w, snd w)])
             = since_boundary (ws @ [w])"
    unfolding w by (simp only: since_boundary_snoc)
  from write_suffix[OF snoc, of "snd w" "fst w"] show ?case
    unfolding g write_all_snoc .
qed

text \<open>The length stays within the capacity when the capacity is not negative.\<close>

lemma internal_write_length:
  assumes "0 \<le> si_max_size si" "int (length (data_cache si)) \<le> si_max_size si"
  shows "int (length (data_cache (RingStorageInternal_write d k si))) \<le> si_max_size si"
proof (cases k)
  case True
  then show ?thesis using assms by (simp add: internal_write_key)
next
  case False
  then show ?thesis using assms by (simp add: internal_write_nonkey)
qed

lemma write_length:
  assumes "0 \<le> maxSize s" "int (length (getCache s)) \<le> maxSize s"
  shows "0 \<le> maxSize (RingStorage_write d k s) \<and>
         int (length (getCache (RingStorage_write d k s))) \<le> maxSize (RingStorage_write d k s)"
proof -
  let ?s1 = "snd (computeGopSize k s)"
  have cap: "0 \<le> maxSize ?s1" using assms(1) by (rule computeGopSize_capacity)
  have before: "int (length (getCache ?s1)) \<le> maxSize ?s1"
  proof (cases "fst (computeGopSize k s)")
    case True
    from computeGopSize_resized[OF True] show ?thesis by simp
  next
    case False
    then show ?thesis
      using computeGopSize_not_resized[of k s] assms by (simp add: getCache_def maxSize_def)
  qed
  have m: "maxSize (RingStorage_write d k s) = maxSize ?s1"
    by (simp add: RingStorage_write_def maxSize_def Let_def internal_write_max)
  have c: "getCache (RingStorage_write d k s) =
             data_cache (RingStorageInternal_write d k (storage_internal ?s1))"
    by (simp add: RingStorage_write_def getCache_def Let_def)
  show ?thesis
    using internal_write_length[of "storage_internal ?s1" d k] cap before
    unfolding m c by (simp add: getCache_def maxSize_def)
qed

lemma cache_length:
  assumes "0 < sz \<or> 0 \<le> max_sz"
  shows "0 \<le> maxSize (write_all ws (RingStorage_new sz max_sz)) \<and>
         int (length (getCache (write_all ws (RingStorage_new sz max_sz))))
           \<le> maxSize (write_all ws (RingStorage_new sz max_sz))"
proof (induction ws rule: rev_induct)
  case Nil
  show ?case using assms
    by (auto simp add: RingStorage_new_def maxSize_def getCache_def RingStorageInternal_new_def)
next
  case (snoc w ws)
  let ?s = "write_all ws (RingStorage_new sz max_sz)"
  from snoc have "0 \<le> maxSize ?s" "int (length (getCache ?s)) \<le> maxSize ?s" by simp_all
  from write_length[OF this, of "snd w" "fst w"] show ?case
    unfolding write_all_snoc .
qed

lemmas cache_eval = int32_def RingStorage_new_def RingStorageInternal_new_def RingStorage_write_def
  computeGopSize_def RingStorageInternal_write_def getCache_def maxSize_def Let_def
  RING_MIN_SIZE_def

text \<open>
  Claim C3, amended. After any sequence \<open>ws\<close> of writes to any cache, the stored entries are
  a suffix of the part of \<open>ws\<close> that starts at its most recent boundary write, which is
  itself a suffix of \<open>ws\<close>. When the cache was built with a capacity that is not negative
  (a fixed size, or auto-sizing under a hard maximum \<open>max_sz \<ge> 0\<close>), there are at most as
  many stored entries as the current capacity.
\<close>

theorem cache_boundary_suffix:
  "suffix (getCache (write_all ws (RingStorage_new sz max_sz))) (since_boundary ws) \<and>
   suffix (since_boundary ws) ws \<and>
   (0 < sz \<or> 0 \<le> max_sz \<longrightarrow>
      int (length (getCache (write_all ws (RingStorage_new sz max_sz))))
        \<le> maxSize (write_all ws (RingStorage_new sz max_sz)))"
  using cache_suffix[of ws sz max_sz] since_boundary_suffix[of ws] cache_length[of sz max_sz ws]
  by blast

theorem cache_boundary_suffix_witness:
  "getCache (write_all [(True, 1::nat), (False, 2), (True, 3), (False, 4), (False, 5), (False, 6)]
      (RingStorage_new 2 0)) = [(False, 5), (False, 6)] \<and>
   since_boundary [(True, 1::nat), (False, 2), (True, 3), (False, 4), (False, 5), (False, 6)]
     = [(True, 3), (False, 4), (False, 5), (False, 6)] \<and>
   suffix (getCache (write_all [(True, 1::nat), (False, 2), (True, 3), (False, 4), (False, 5), (False, 6)]
      (RingStorage_new 2 0)))
     (since_boundary [(True, 1::nat), (False, 2), (True, 3), (False, 4), (False, 5), (False, 6)]) \<and>
   int (length (getCache (write_all [(True, 1::nat), (False, 2), (True, 3), (False, 4), (False, 5), (False, 6)]
      (RingStorage_new 2 0)))) \<le> maxSize (write_all [(True, 1::nat), (False, 2), (True, 3), (False, 4), (False, 5), (False, 6)]
      (RingStorage_new 2 0))"
proof -
  have pre: "(0::int) < 2 \<or> (0::int) \<le> 0" by simp
  have cache: "getCache (write_all [(True, 1::nat), (False, 2), (True, 3), (False, 4), (False, 5), (False, 6)]
      (RingStorage_new 2 0)) = [(False, 5), (False, 6)]"
    by (simp add: cache_eval)
  have gop: "since_boundary [(True, 1::nat), (False, 2), (True, 3), (False, 4), (False, 5), (False, 6)]
     = [(True, 3), (False, 4), (False, 5), (False, 6)]"
    by (simp add: since_boundary_def)
  note t = cache_boundary_suffix[of
      "[(True, 1::nat), (False, 2), (True, 3), (False, 4), (False, 5), (False, 6)]" 2 0]
  note t1 = t[THEN conjunct1]
  note t3 = t[THEN conjunct2, THEN conjunct2, THEN mp, OF pre]
  from cache gop t1 t3 show ?thesis by (intro conjI)
qed

text \<open>
  The claim as it is written, for every cache, fails on the length: a cache built with
  size 0 and hard maximum \<open>-5\<close> has capacity \<open>-5\<close>, evicts nothing, and holds one entry
  after one write.
\<close>

theorem cache_capacity_counterexample:
  "getCache (write_all [(False, ''X'')] (RingStorage_new 0 (- 5))) = [(False, ''X'')] \<and>
   maxSize (write_all [(False, ''X'')] (RingStorage_new 0 (- 5))) = - 5 \<and>
   \<not> int (length (getCache (write_all [(False, ''X'')] (RingStorage_new 0 (- 5)))))
       \<le> maxSize (write_all [(False, ''X'')] (RingStorage_new 0 (- 5)))"
  by (simp add: cache_eval)

section \<open>Auto-sizing\<close>

lemma int32_in_range: "- (2 ^ 31) \<le> x \<Longrightarrow> x < 2 ^ 31 \<Longrightarrow> int32 x = x"
  by (simp add: int32_def)

lemma write_fixed:
  assumes "beset_size s \<noteq> 0"
  shows "beset_size (RingStorage_write d k s) = beset_size s \<and>
         maxSize (RingStorage_write d k s) = maxSize s"
  using assms
  by (simp add: RingStorage_write_def computeGopSize_def maxSize_def Let_def internal_write_max)

lemma write_all_fixed:
  "beset_size s \<noteq> 0 \<Longrightarrow>
     beset_size (write_all ws s) = beset_size s \<and> maxSize (write_all ws s) = maxSize s"
proof (induction ws arbitrary: s)
  case Nil
  show ?case by simp
next
  case (Cons w ws)
  from write_fixed[OF Cons.prems, of "snd w" "fst w"]
  have "beset_size (RingStorage_write (snd w) (fst w) s) = beset_size s"
       "maxSize (RingStorage_write (snd w) (fst w) s) = maxSize s" by simp_all
  with Cons.IH[of "RingStorage_write (snd w) (fst w) s"] Cons.prems show ?case by simp
qed

lemma autosize_inv_new: "sz \<le> 0 \<Longrightarrow> autosize_inv H (RingStorage_new sz H) 0"
  by (simp add: autosize_inv_def RingStorage_new_def)

lemma autosize_inv_write:
  assumes "autosize_inv H s n"
  shows "autosize_inv H (RingStorage_write d k s) (if k then Suc n else n)"
proof (cases "beset_size s = 0")
  case False
  from write_fixed[OF False, of d k] assms False show ?thesis
    by (auto simp add: autosize_inv_def RingStorage_write_def computeGopSize_def Let_def)
next
  case True
  with assms show ?thesis
    by (auto simp add: autosize_inv_def RingStorage_write_def computeGopSize_def Let_def
        maxSize_def internal_write_max RingStorageInternal_new_def RING_MIN_SIZE_def)
qed

lemma autosize_inv_write_all:
  assumes "sz \<le> 0"
  shows "autosize_inv H (write_all ws (RingStorage_new sz H)) (length (filter fst ws))"
proof (induction ws rule: rev_induct)
  case Nil
  show ?case using autosize_inv_new[OF assms] by simp
next
  case (snoc w ws)
  from autosize_inv_write[OF snoc, of "snd w" "fst w"] show ?case
    by (cases "fst w") (simp_all add: write_all_snoc)
qed

text \<open>Counting, while nothing wraps.\<close>

lemma write_nonkey_counting:
  assumes "can_resize s" "beset_size s = 0"
  shows "can_resize (RingStorage_write d False s) \<and> beset_size (RingStorage_write d False s) = 0 \<and>
         total_count (RingStorage_write d False s) = int32 (total_count s + 1) \<and>
         last_key_count (RingStorage_write d False s) = last_key_count s \<and>
         max_size (RingStorage_write d False s) = max_size s \<and>
         maxSize (RingStorage_write d False s) = maxSize s"
  using assms
  by (simp add: RingStorage_write_def computeGopSize_def maxSize_def Let_def internal_write_max)

lemma write_first_key:
  assumes "can_resize s" "beset_size s = 0" "last_key_count s = 0"
  shows "can_resize (RingStorage_write d True s) \<and> beset_size (RingStorage_write d True s) = 0 \<and>
         total_count (RingStorage_write d True s) = int32 (total_count s + 1) \<and>
         last_key_count (RingStorage_write d True s) = int32 (total_count s + 1) \<and>
         max_size (RingStorage_write d True s) = max_size s \<and>
         maxSize (RingStorage_write d True s) = maxSize s"
  using assms
  by (simp add: RingStorage_write_def computeGopSize_def maxSize_def Let_def internal_write_max)

lemma write_second_key:
  assumes "can_resize s" "beset_size s = 0" "last_key_count s \<noteq> 0"
  shows "beset_size (RingStorage_write d True s)
           = max 1 (min (max_size s)
               (int32 (int32 (int32 (total_count s + 1) - last_key_count s) * 2))) \<and>
         maxSize (RingStorage_write d True s) = beset_size (RingStorage_write d True s)"
  using assms
  by (auto simp add: RingStorage_write_def computeGopSize_def maxSize_def Let_def internal_write_max
      RingStorageInternal_new_def RING_MIN_SIZE_def)

lemma write_all_nonkey_counting:
  assumes "\<forall>w\<in>set ws. \<not> fst w" "can_resize s" "beset_size s = 0"
    and "0 \<le> total_count s" "total_count s + int (length ws) < 2 ^ 31"
  shows "can_resize (write_all ws s) \<and> beset_size (write_all ws s) = 0 \<and>
         total_count (write_all ws s) = total_count s + int (length ws) \<and>
         last_key_count (write_all ws s) = last_key_count s \<and>
         max_size (write_all ws s) = max_size s \<and>
         maxSize (write_all ws s) = maxSize s"
  using assms
proof (induction ws arbitrary: s)
  case Nil
  then show ?case by simp
next
  case (Cons w ws)
  let ?s1 = "RingStorage_write (snd w) False s"
  from Cons.prems have nk: "fst w = False" and rest: "\<forall>w\<in>set ws. \<not> fst w" by simp_all
  from Cons.prems have "int32 (total_count s + 1) = total_count s + 1"
    by (intro int32_in_range) simp_all
  with write_nonkey_counting[OF Cons.prems(2,3), of "snd w"]
  have s1: "can_resize ?s1" "beset_size ?s1 = 0" "total_count ?s1 = total_count s + 1"
    "last_key_count ?s1 = last_key_count s" "max_size ?s1 = max_size s" "maxSize ?s1 = maxSize s"
    by simp_all
  from s1(3) Cons.prems have "0 \<le> total_count ?s1" "total_count ?s1 + int (length ws) < 2 ^ 31"
    by simp_all
  from Cons.IH[OF rest s1(1,2) this] s1 show ?case by (simp add: nk)
qed

lemma new_auto:
  assumes "sz \<le> 0"
  shows "can_resize (RingStorage_new sz H :: 'a RingStorage) \<and>
         beset_size (RingStorage_new sz H :: 'a RingStorage) = 0 \<and>
         total_count (RingStorage_new sz H :: 'a RingStorage) = 0 \<and>
         last_key_count (RingStorage_new sz H :: 'a RingStorage) = 0 \<and>
         max_size (RingStorage_new sz H :: 'a RingStorage) = H \<and>
         maxSize (RingStorage_new sz H :: 'a RingStorage) = H"
  using assms by (simp add: RingStorage_new_def maxSize_def RingStorageInternal_new_def)

text \<open>
  The counters between the first and the second boundary write: \<open>pre\<close> and \<open>mid\<close> hold no
  boundary write, and the count has not left the range of \<open>int\<close>.
\<close>

lemma counters_after_first_key:
  assumes "sz \<le> 0" "\<forall>w\<in>set pre. \<not> fst w" "\<forall>w\<in>set mid. \<not> fst w"
    and "int (length pre) + int (length mid) + 1 < 2 ^ 31"
  shows "can_resize (write_all (pre @ (True, a) # mid) (RingStorage_new sz H)) \<and>
         beset_size (write_all (pre @ (True, a) # mid) (RingStorage_new sz H)) = 0 \<and>
         total_count (write_all (pre @ (True, a) # mid) (RingStorage_new sz H))
           = int (length pre) + 1 + int (length mid) \<and>
         last_key_count (write_all (pre @ (True, a) # mid) (RingStorage_new sz H))
           = int (length pre) + 1 \<and>
         max_size (write_all (pre @ (True, a) # mid) (RingStorage_new sz H)) = H \<and>
         maxSize (write_all (pre @ (True, a) # mid) (RingStorage_new sz H)) = H"
proof -
  let ?s0 = "RingStorage_new sz H :: 'a RingStorage"
  let ?s1 = "write_all pre ?s0"
  let ?s2 = "RingStorage_write a True ?s1"
  let ?s3 = "write_all mid ?s2"
  note n = new_auto[OF assms(1), of H, where 'a='a]
  from n have c0: "can_resize ?s0" and b0: "beset_size ?s0 = 0"
    and t0: "0 \<le> total_count ?s0" by simp_all
  from n assms(4) have r0: "total_count ?s0 + int (length pre) < 2 ^ 31" by simp
  note p1 = write_all_nonkey_counting[OF assms(2) c0 b0 t0 r0]
  from p1 have c1: "can_resize ?s1" and b1: "beset_size ?s1 = 0" by simp_all
  from p1 n have l1: "last_key_count ?s1 = 0" and t1: "total_count ?s1 = int (length pre)"
    by simp_all
  from assms(4) have w1: "int32 (int (length pre) + 1) = int (length pre) + 1"
    by (intro int32_in_range) simp_all
  note p2 = write_first_key[OF c1 b1 l1, of a]
  from p2 have c2: "can_resize ?s2" and b2: "beset_size ?s2 = 0" by simp_all
  from p2 t1 w1 have t2: "total_count ?s2 = int (length pre) + 1"
    and l2: "last_key_count ?s2 = int (length pre) + 1" by simp_all
  from t2 have t2': "0 \<le> total_count ?s2" by simp
  from t2 assms(4) have r2: "total_count ?s2 + int (length mid) < 2 ^ 31" by simp
  note p3 = write_all_nonkey_counting[OF assms(3) c2 b2 t2' r2]
  have e3: "write_all (pre @ (True, a) # mid) ?s0 = ?s3"
    by (simp add: write_all_append)
  from p1 p2 p3 n t2 l2 show ?thesis unfolding e3 by simp
qed

lemma autosize_after_second_key:
  assumes "sz \<le> 0" "\<forall>w\<in>set pre. \<not> fst w" "\<forall>w\<in>set mid. \<not> fst w"
    and "int (length pre) + int (length mid) + 2 < 2 ^ 31"
    and "int (length mid) + 1 < 2 ^ 30"
  shows "beset_size (write_all (pre @ (True, a) # mid @ [(True, b)]) (RingStorage_new sz H))
           = max 1 (min H (2 * (int (length mid) + 1))) \<and>
         maxSize (write_all (pre @ (True, a) # mid @ [(True, b)]) (RingStorage_new sz H))
           = max 1 (min H (2 * (int (length mid) + 1)))"
proof -
  let ?s3 = "write_all (pre @ (True, a) # mid) (RingStorage_new sz H)"
  let ?s4 = "RingStorage_write b True ?s3"
  from assms(4) have "int (length pre) + int (length mid) + 1 < 2 ^ 31" by simp
  note p3 = counters_after_first_key[OF assms(1,2,3) this, of a H]
  from p3 have c3: "can_resize ?s3" and b3: "beset_size ?s3 = 0"
    and l3: "last_key_count ?s3 \<noteq> 0" by simp_all
  from assms(4) have w1: "int32 (int (length pre) + 1 + int (length mid) + 1)
      = int (length pre) + 1 + int (length mid) + 1"
    by (intro int32_in_range) simp_all
  from assms(5) have w2: "int32 (int (length mid) + 1) = int (length mid) + 1"
    by (intro int32_in_range) simp_all
  from assms(5) have w3: "int32 ((int (length mid) + 1) * 2) = (int (length mid) + 1) * 2"
    by (intro int32_in_range) simp_all
  have g1: "total_count ?s3 + 1 = int (length pre) + 1 + int (length mid) + 1"
    using p3 by simp
  have g2: "int32 (total_count ?s3 + 1) - last_key_count ?s3 = int (length mid) + 1"
    unfolding g1 w1 using p3 by simp
  have "int32 (int32 (int32 (total_count ?s3 + 1) - last_key_count ?s3) * 2)
          = 2 * (int (length mid) + 1)"
    unfolding g2 w2 w3 by simp
  with write_second_key[OF c3 b3 l3, of b] p3
  have "beset_size ?s4 = max 1 (min H (2 * (int (length mid) + 1)))"
    "maxSize ?s4 = beset_size ?s4" by simp_all
  moreover have "write_all (pre @ (True, a) # mid @ [(True, b)]) (RingStorage_new sz H) = ?s4"
    by (simp add: write_all_append)
  ultimately show ?thesis by simp
qed

text \<open>A second boundary write sets the target size, while the count has not wrapped.\<close>

lemma second_key_sets_target:
  assumes "sz \<le> 0" "int (length ws) < 2 ^ 31" "2 \<le> length (filter fst ws)"
  shows "beset_size (write_all ws (RingStorage_new sz H)) \<noteq> 0"
proof -
  from assms(3) have "\<exists>w\<in>set ws. fst w" by (cases "filter fst ws") (auto simp: filter_eq_Cons_iff)
  from split_list_first_prop[OF this] obtain pre x rest
    where ws: "ws = pre @ x # rest" and x: "fst x" and pre: "\<forall>w\<in>set pre. \<not> fst w" by blast
  from pre have fpre: "filter fst pre = []" by (simp add: filter_empty_conv)
  from assms(3) ws x fpre have "\<exists>w\<in>set rest. fst w"
    by (cases "filter fst rest") (auto simp: filter_eq_Cons_iff)
  from split_list_first_prop[OF this] obtain mid y post
    where rest: "rest = mid @ y # post" and y: "fst y" and mid: "\<forall>w\<in>set mid. \<not> fst w"
    by blast
  let ?s3 = "write_all (pre @ (True, snd x) # mid) (RingStorage_new sz H)"
  let ?s4 = "RingStorage_write (snd y) True ?s3"
  from assms(2) ws rest have "int (length pre) + int (length mid) + 1 < 2 ^ 31" by simp
  note p3 = counters_after_first_key[OF assms(1) pre mid this, of "snd x" H]
  from p3 have c3: "can_resize ?s3" and b3: "beset_size ?s3 = 0"
    and l3: "last_key_count ?s3 \<noteq> 0" by simp_all
  from write_second_key[OF c3 b3 l3, of "snd y"] have nz: "beset_size ?s4 \<noteq> 0" by simp
  have e: "write_all ws (RingStorage_new sz H) = write_all post ?s4"
    unfolding ws rest using x y by (simp add: write_all_append)
  from write_all_fixed[OF nz, of post] nz show ?thesis unfolding e by simp
qed

text \<open>
  Claim C6, amended. In an auto-sizing cache under a hard maximum \<open>H\<close>, once \<open>_beset_size\<close>
  (the target size) is set, at least two boundary writes have been made, the target size
  lies between \<open>1\<close> and \<open>max 1 H\<close>, it is the capacity, and no later write changes either
  of them. So it lies between \<open>1\<close> and \<open>H\<close> when \<open>H \<ge> 1\<close>, and it is \<open>1\<close> otherwise. While
  the count of writes has not left the range of \<open>int\<close>, it is set as soon as the sequence
  holds a second boundary write.
\<close>

theorem target_size_fixed:
  assumes "sz \<le> 0"
  shows "(beset_size (write_all ws (RingStorage_new sz H)) \<noteq> 0 \<longrightarrow>
            2 \<le> length (filter fst ws) \<and>
            1 \<le> beset_size (write_all ws (RingStorage_new sz H)) \<and>
            beset_size (write_all ws (RingStorage_new sz H)) \<le> max 1 H \<and>
            maxSize (write_all ws (RingStorage_new sz H))
              = beset_size (write_all ws (RingStorage_new sz H)) \<and>
            (\<forall>later. beset_size (write_all (ws @ later) (RingStorage_new sz H))
                       = beset_size (write_all ws (RingStorage_new sz H)) \<and>
                     maxSize (write_all (ws @ later) (RingStorage_new sz H))
                       = beset_size (write_all ws (RingStorage_new sz H)))) \<and>
         (1 \<le> H \<longrightarrow> beset_size (write_all ws (RingStorage_new sz H)) \<noteq> 0 \<longrightarrow>
            beset_size (write_all ws (RingStorage_new sz H)) \<le> H) \<and>
         (int (length ws) < 2 ^ 31 \<longrightarrow> 2 \<le> length (filter fst ws) \<longrightarrow>
            beset_size (write_all ws (RingStorage_new sz H)) \<noteq> 0)"
proof -
  let ?s = "write_all ws (RingStorage_new sz H)"
  have set_then: "2 \<le> length (filter fst ws) \<and> 1 \<le> beset_size ?s \<and>
      beset_size ?s \<le> max 1 H \<and> maxSize ?s = beset_size ?s"
    if nz: "beset_size ?s \<noteq> 0"
    using autosize_inv_write_all[OF assms, of H ws] nz by (simp add: autosize_inv_def)
  have fixed: "beset_size (write_all (ws @ later) (RingStorage_new sz H)) = beset_size ?s \<and>
      maxSize (write_all (ws @ later) (RingStorage_new sz H)) = beset_size ?s"
    if nz: "beset_size ?s \<noteq> 0" for later
    using write_all_fixed[OF nz, of later] set_then[OF nz] by (simp add: write_all_append)
  have in_range: "beset_size ?s \<le> H" if "1 \<le> H" "beset_size ?s \<noteq> 0"
    using set_then[OF that(2)] that(1) by simp
  have computed: "beset_size ?s \<noteq> 0"
    if "int (length ws) < 2 ^ 31" "2 \<le> length (filter fst ws)"
    using assms that by (rule second_key_sets_target)
  from set_then fixed in_range computed show ?thesis by blast
qed

text \<open>
  The claim as it is written, for every auto-sizing cache, fails on the upper bound: under
  the hard maximum 0 the floor \<open>RING_MIN_SIZE\<close> wins, and two boundary writes set the target
  size to 1.
\<close>

theorem target_size_range_counterexample:
  "beset_size (write_all [(True, ''A''), (True, ''B'')] (RingStorage_new 0 0)) = 1 \<and>
   max_size (write_all [(True, ''A''), (True, ''B'')] (RingStorage_new 0 0)) = 0 \<and>
   \<not> beset_size (write_all [(True, ''A''), (True, ''B'')] (RingStorage_new 0 0))
       \<le> max_size (write_all [(True, ''A''), (True, ''B'')] (RingStorage_new 0 0))"
  by (simp add: cache_eval)

theorem target_size_fixed_witness:
  "beset_size (write_all [(True, ''A''), (False, ''B''), (False, ''C''), (True, ''D'')]
      (RingStorage_new 0 10)) = 6 \<and>
   2 \<le> length (filter fst [(True, ''A''), (False, ''B''), (False, ''C''), (True, ''D'')]) \<and>
   beset_size (write_all [(True, ''A''), (False, ''B''), (False, ''C''), (True, ''D'')]
      (RingStorage_new 0 10)) \<le> 10 \<and>
   beset_size (write_all ([(True, ''A''), (False, ''B''), (False, ''C''), (True, ''D'')]
      @ [(False, ''E''), (True, ''F''), (True, ''G'')]) (RingStorage_new 0 10)) = 6 \<and>
   beset_size (write_all [(True, ''A''), (True, ''B'')] (RingStorage_new 0 0)) \<noteq> 0"
proof -
  let ?ws = "[(True, ''A''), (False, ''B''), (False, ''C''), (True, ''D'')]"
  let ?s = "write_all ?ws (RingStorage_new 0 10) :: string RingStorage"
  have h1: "(0::int) \<le> 0" and h2: "(1::int) \<le> 10" by simp_all
  have v: "beset_size ?s = 6" by (simp add: cache_eval)
  have nz: "beset_size ?s \<noteq> 0" unfolding v by simp
  note t = target_size_fixed[OF h1, of ?ws 10]
  note t1 = t[THEN conjunct1, THEN mp, OF nz]
  note keys = t1[THEN conjunct1]
  note later = t1[THEN conjunct2, THEN conjunct2, THEN conjunct2, THEN conjunct2, THEN spec,
      of "[(False, ''E''), (True, ''F''), (True, ''G'')]", THEN conjunct1]
  note upper = t[THEN conjunct2, THEN conjunct1, THEN mp, OF h2, THEN mp, OF nz]
  have len: "int (length [(True, ''A''), (True, ''B'')]) < 2 ^ 31" by simp
  have two: "2 \<le> length (filter fst [(True, ''A''), (True, ''B'')])" by simp
  note computed = target_size_fixed[OF h1, of "[(True, ''A''), (True, ''B'')]" 0,
      THEN conjunct2, THEN conjunct2, THEN mp, OF len, THEN mp, OF two]
  from later have later': "beset_size (write_all (?ws @ [(False, ''E''), (True, ''F''), (True, ''G'')])
      (RingStorage_new 0 10)) = 6" unfolding v .
  from v keys upper later' computed show ?thesis by (intro conjI)
qed

text \<open>
  Claim C2, amended. In an auto-sizing cache under the hard maximum \<open>H\<close>, let the first
  boundary write \<open>a\<close> (after any non-boundary writes \<open>pre\<close>) and the second boundary write
  \<open>b\<close> be separated by the non-boundary writes \<open>mid\<close>, \<open>k\<close> of them, and let the counters
  stay in the range of \<open>int\<close>: \<open>b\<close> is at most write number \<open>2^31 - 1\<close>, and
  \<open>k + 1 < 2^30\<close>. Right after \<open>b\<close> the capacity is \<open>clamp (2 * (k + 1)) 1 H\<close>: the counted
  gap runs from the first boundary to the second and so includes one of the two. The capacity
  stays at this value after any later writes.
\<close>

theorem autosize_capacity:
  assumes "sz \<le> 0" "\<forall>w\<in>set pre. \<not> fst w" "\<forall>w\<in>set mid. \<not> fst w"
    and "int (length pre) + int (length mid) + 2 < 2 ^ 31"
    and "int (length mid) + 1 < 2 ^ 30"
  shows "maxSize (write_all (pre @ (True, a) # mid @ [(True, b)]) (RingStorage_new sz H))
           = clamp (2 * (int (length mid) + 1)) 1 H \<and>
         (\<forall>later. maxSize (write_all (pre @ (True, a) # mid @ (True, b) # later)
                      (RingStorage_new sz H))
                   = clamp (2 * (int (length mid) + 1)) 1 H)"
proof -
  let ?s4 = "write_all (pre @ (True, a) # mid @ [(True, b)]) (RingStorage_new sz H)"
  from autosize_after_second_key[OF assms, of a b H]
  have b4: "beset_size ?s4 = clamp (2 * (int (length mid) + 1)) 1 H"
    and m4: "maxSize ?s4 = clamp (2 * (int (length mid) + 1)) 1 H"
    by (simp_all add: clamp_def)
  have nz: "beset_size ?s4 \<noteq> 0" unfolding b4 by (simp add: clamp_def)
  have "maxSize (write_all (pre @ (True, a) # mid @ (True, b) # later) (RingStorage_new sz H))
          = clamp (2 * (int (length mid) + 1)) 1 H" for later
  proof -
    have "write_all (pre @ (True, a) # mid @ (True, b) # later) (RingStorage_new sz H)
            = write_all later ?s4"
      by (simp add: write_all_append)
    with write_all_fixed[OF nz, of later] m4 show ?thesis by simp
  qed
  with m4 show ?thesis by blast
qed

text \<open>
  The bound on \<open>k\<close> cannot be dropped: with \<open>2^30 - 1\<close> non-boundary writes between the two
  boundaries the doubled gap wraps to a negative number, and the capacity is fixed at the
  floor 1 under any hard maximum \<open>H \<ge> 1\<close>.
\<close>

lemma autosize_gap_wraps:
  assumes "1 \<le> H"
  shows "maxSize (write_all ((True, a) # replicate (2 ^ 30 - 1) (False, x) @ [(True, b)])
           (RingStorage_new 0 H)) = 1"
proof -
  let ?mid = "replicate (2 ^ 30 - 1) (False, x)"
  let ?s3 = "write_all ([] @ (True, a) # ?mid) (RingStorage_new 0 H)"
  let ?s4 = "RingStorage_write b True ?s3"
  have len: "int (length ?mid) = 2 ^ 30 - 1" by simp
  have h1: "(0::int) \<le> 0" and h2: "\<forall>w\<in>set []. \<not> fst (w :: 'a entry)"
    and h3: "\<forall>w\<in>set ?mid. \<not> fst w" by simp_all
  have h4: "int (length ([] :: 'a entry list)) + int (length ?mid) + 1 < 2 ^ 31"
    unfolding len by simp
  note p3 = counters_after_first_key[OF h1 h2 h3 h4, of a H]
  from p3 have c3: "can_resize ?s3" and b3: "beset_size ?s3 = 0"
    and l3: "last_key_count ?s3 \<noteq> 0" by simp_all
  from p3 have t3: "total_count ?s3 = 2 ^ 30" and k3: "last_key_count ?s3 = 1"
    and m3: "max_size ?s3 = H"
    unfolding len by simp_all
  have "int32 (int32 (int32 (total_count ?s3 + 1) - last_key_count ?s3) * 2) = - (2 ^ 31)"
    unfolding t3 k3 by (simp add: int32_def)
  with write_second_key[OF c3 b3 l3, of b] m3 assms have "maxSize ?s4 = 1" by simp
  moreover have "write_all ((True, a) # ?mid @ [(True, b)]) (RingStorage_new 0 H) = ?s4"
    by (simp add: write_all_append)
  ultimately show ?thesis by simp
qed

lemma buffer_write_plain:
  assumes "delegate b = None"
  shows "storage (RingBuffer_write d k b) = RingStorage_write d k (storage b) \<and>
         delegate (RingBuffer_write d k b) = None"
  using assms by (simp add: RingBuffer_write_def)

lemma writes_storage:
  "delegate b = None \<Longrightarrow> storage (writes ws b) = write_all ws (storage b)"
proof (induction ws arbitrary: b)
  case Nil
  show ?case by simp
next
  case (Cons w ws)
  from buffer_write_plain[OF Cons.prems, of "snd w" "fst w"] Cons.IH[of "RingBuffer_write (snd w) (fst w) b"]
  show ?case by simp
qed

lemma buffer_new_plain:
  "delegate (RingBuffer_new sz H cb) = None \<and> storage (RingBuffer_new sz H cb) = RingStorage_new sz H"
  by (simp add: RingBuffer_new_def)

text \<open>
  Claim C8. A buffer made with size 0 and hard maximum 10 receives \<open>A\<close> (boundary), \<open>B\<close>,
  \<open>C\<close>, \<open>D\<close> (boundary), \<open>E\<close>. Its cache then holds \<open>[(True, D), (False, E)]\<close> and has
  capacity 6. After \<open>C\<close> the target size is still unset and the capacity is 10; after
  \<open>D\<close> both are 6.
\<close>

theorem scenario_autosize:
  "getCache (storage (writes [(True, A), (False, B), (False, C), (True, D), (False, E)]
      (RingBuffer_new 0 10 cb))) = [(True, D), (False, E)] \<and>
   maxSize (storage (writes [(True, A), (False, B), (False, C), (True, D), (False, E)]
      (RingBuffer_new 0 10 cb))) = 6 \<and>
   beset_size (storage (writes [(True, A), (False, B), (False, C)] (RingBuffer_new 0 10 cb))) = 0 \<and>
   maxSize (storage (writes [(True, A), (False, B), (False, C)] (RingBuffer_new 0 10 cb))) = 10 \<and>
   beset_size (storage (writes [(True, A), (False, B), (False, C), (True, D)]
      (RingBuffer_new 0 10 cb))) = 6 \<and>
   maxSize (storage (writes [(True, A), (False, B), (False, C), (True, D)]
      (RingBuffer_new 0 10 cb))) = 6"
proof -
  have st: "storage (writes ws (RingBuffer_new 0 10 cb)) = write_all ws (RingStorage_new 0 10)"
    for ws :: "'a entry list"
    using writes_storage[of "RingBuffer_new 0 10 cb" ws] by (simp add: buffer_new_plain)
  show ?thesis unfolding st by (simp add: cache_eval)
qed

theorem scenario_autosize_witness:
  "getCache (storage (writes [(True, ''A''), (False, ''B''), (False, ''C''), (True, ''D''), (False, ''E'')]
      (RingBuffer_new 0 10 None))) = [(True, ''D''), (False, ''E'')] \<and>
   maxSize (storage (writes [(True, ''A''), (False, ''B''), (False, ''C''), (True, ''D''), (False, ''E'')]
      (RingBuffer_new 0 10 None))) = 6"
  using scenario_autosize[where A="''A''" and B="''B''" and C="''C''" and D="''D''"
      and E="''E''" and cb=None] by simp

text \<open>
  The claim as it is written, with \<open>clamp (2 * k) 1 H\<close>, fails: after \<open>A\<close> (boundary),
  \<open>B\<close>, \<open>C\<close>, \<open>D\<close> (boundary) under a hard maximum of 10 the capacity is 6, not 4.
\<close>

theorem autosize_2k_counterexample:
  "maxSize (write_all ([] @ (True, ''A'') # [(False, ''B''), (False, ''C'')] @ [(True, ''D'')])
      (RingStorage_new 0 10)) = 6 \<and>
   clamp (2 * int (length [(False, ''B''), (False, ''C'')])) 1 10 = 4 \<and>
   maxSize (write_all ([] @ (True, ''A'') # [(False, ''B''), (False, ''C'')] @ [(True, ''D'')])
      (RingStorage_new 0 10)) \<noteq> clamp (2 * int (length [(False, ''B''), (False, ''C'')])) 1 10"
  by (simp add: cache_eval clamp_def)

theorem autosize_capacity_witness:
  "maxSize (write_all ([(False, ''P'')] @ (True, ''A'') # [(False, ''B''), (False, ''C'')] @ [(True, ''D'')])
      (RingStorage_new 0 10)) = 6 \<and>
   maxSize (write_all ([(False, ''P'')] @ (True, ''A'') # [(False, ''B''), (False, ''C'')] @ (True, ''D'')
      # [(False, ''E''), (True, ''F''), (True, ''G'')]) (RingStorage_new 0 10)) = 6"
proof -
  have h1: "(0::int) \<le> 0" by simp
  have h2: "\<forall>w\<in>set [(False, ''P'')]. \<not> fst w" by simp
  have h3: "\<forall>w\<in>set [(False, ''B''), (False, ''C'')]. \<not> fst w" by simp
  have h4: "int (length [(False, ''P'')]) + int (length [(False, ''B''), (False, ''C'')]) + 2
              < 2 ^ 31" by simp
  have h5: "int (length [(False, ''B''), (False, ''C'')]) + 1 < 2 ^ 30" by simp
  note t = autosize_capacity[OF h1 h2 h3 h4 h5, of "''A''" "''D''" 10]
  note t1 = t[THEN conjunct1]
  note t2 = t[THEN conjunct2, THEN spec, of "[(False, ''E''), (True, ''F''), (True, ''G'')]"]
  show ?thesis using t1 t2 by (simp add: clamp_def)
qed

section \<open>Properties of the subscriber\<close>



text \<open>
  Claim C1, amended. A subscriber attached with \<open>use_cache = true\<close> that is still gating
  receives a non-boundary frame, and the incremented \<open>_ignored_count\<close> reaches the current
  capacity of the dispatcher's cache. Then the subscriber switches to streaming, but the read
  callback is not called for this frame: the trace of the callback is unchanged. Every frame
  after it, boundary or not, is handed to the callback.
\<close>

theorem onRead_forced_start:
  assumes "use_cache r" "\<not> start_on_read r" "\<not> is_key"
    and "maxSize st \<le> ignored_count r + 1"
  shows "start_on_read (onRead st x is_key r) \<and>
         ignored_count (onRead st x is_key r) = ignored_count r + 1 \<and>
         read_calls (onRead st x is_key r) = read_calls r \<and>
         (\<forall>y k. onRead st y k (onRead st x is_key r) = call_read_cb y (onRead st x is_key r))"
  using assms by (simp add: onRead_def Let_def)

theorem onRead_forced_start_witness:
  "start_on_read (onRead (RingStorage_new 1 1024) ''X'' False
      ((RingReader_new True)\<lparr>read_cb := Some 5\<rparr>)) \<and>
   read_calls (onRead (RingStorage_new 1 1024) ''X'' False
      ((RingReader_new True)\<lparr>read_cb := Some 5\<rparr>)) = [] \<and>
   read_calls (onRead (RingStorage_new 1 1024) ''Y'' False
      (onRead (RingStorage_new 1 1024) ''X'' False
        ((RingReader_new True)\<lparr>read_cb := Some 5\<rparr>))) = [(5, ''Y'')]"
proof -
  let ?r = "(RingReader_new True)\<lparr>read_cb := Some 5\<rparr> :: string RingReader"
  let ?st = "RingStorage_new 1 1024 :: string RingStorage"
  have h1: "use_cache ?r" and h2: "\<not> start_on_read ?r" and h3: "\<not> False"
    and h4: "maxSize ?st \<le> ignored_count ?r + 1"
    by (simp_all add: RingReader_new_def RingStorage_new_def RingStorageInternal_new_def
        maxSize_def)
  note t = onRead_forced_start[OF h1 h2 h3 h4, of "''X''"]
  note t1 = t[THEN conjunct1]
  note t3 = t[THEN conjunct2, THEN conjunct2, THEN conjunct1]
  note t4 = t[THEN conjunct2, THEN conjunct2, THEN conjunct2, THEN spec, THEN spec,
      of "''Y''" False]
  have c: "read_cb (onRead ?st ''X'' False ?r) = Some 5"
    by (simp add: onRead_def Let_def RingReader_new_def RingStorage_new_def
        RingStorageInternal_new_def maxSize_def)
  have r0: "read_calls ?r = []" by (simp add: RingReader_new_def)
  show ?thesis using t1 t3 t4 c r0 by (simp add: call_read_cb_def)
qed

text \<open>
  The claim as it is written fails in the scenario of the specification: capacity 1, an
  empty cache, a gating subscriber with callback 5 and a first, non-boundary frame \<open>X\<close>.
  The count reaches the capacity and the subscriber switches to streaming, but \<open>X\<close> is not
  delivered.
\<close>

theorem onRead_forced_delivery_counterexample:
  "use_cache ((RingReader_new True)\<lparr>read_cb := Some 5\<rparr> :: string RingReader) \<and>
   \<not> start_on_read ((RingReader_new True)\<lparr>read_cb := Some 5\<rparr> :: string RingReader) \<and>
   ignored_count (onRead (RingStorage_new 1 1024) ''X'' False
      ((RingReader_new True)\<lparr>read_cb := Some 5\<rparr>)) = maxSize (RingStorage_new 1 1024 :: string RingStorage) \<and>
   start_on_read (onRead (RingStorage_new 1 1024) ''X'' False
      ((RingReader_new True)\<lparr>read_cb := Some 5\<rparr>)) \<and>
   read_calls (onRead (RingStorage_new 1 1024) ''X'' False
      ((RingReader_new True)\<lparr>read_cb := Some 5\<rparr>)) = [] \<and>
   read_calls (onRead (RingStorage_new 1 1024) ''X'' False
      ((RingReader_new True)\<lparr>read_cb := Some 5\<rparr>))
     \<noteq> read_calls ((RingReader_new True)\<lparr>read_cb := Some 5\<rparr>) @ [(5, ''X'')]"
  by (simp add: onRead_def Let_def RingReader_new_def RingStorage_new_def
      RingStorageInternal_new_def maxSize_def)

lemma onRead_after_null:
  "read_calls (onRead st x k (r\<lparr>read_cb := None\<rparr>)) = read_calls r \<and>
   start_on_read (onRead st x k (r\<lparr>read_cb := None\<rparr>)) = start_on_read (onRead st x k r) \<and>
   ignored_count (onRead st x k (r\<lparr>read_cb := None\<rparr>)) = ignored_count (onRead st x k r)"
  by (simp add: onRead_def call_read_cb_def Let_def split: option.splits)

text \<open>
  Claim C9. \<open>setReadCB\<close> with a null callback only replaces the callback by the empty one:
  \<open>_ignored_count\<close>, \<open>_start_on_read\<close> and the trace of deliveries keep their values, so
  nothing is replayed, and a frame read afterwards is not delivered. With a callback \<open>f\<close> the count is reset to 0, the subscriber is put
  back to gating, and \<open>flushGop\<close> runs: for a subscriber with \<open>use_cache\<close> the cache is
  replayed through \<open>onRead\<close> in cache order, for one without it nothing is replayed.
\<close>

theorem setReadCB_null_keeps_gating:
  "setReadCB None st r = r\<lparr>read_cb := None\<rparr> \<and>
   ignored_count (setReadCB None st r) = ignored_count r \<and>
   start_on_read (setReadCB None st r) = start_on_read r \<and>
   read_calls (setReadCB None st r) = read_calls r \<and>
   read_calls (onRead st x k (setReadCB None st r)) = read_calls r \<and>
   setReadCB (Some f) st r =
     flushGop st (r\<lparr>ignored_count := 0, start_on_read := False, read_cb := Some f\<rparr>) \<and>
   (use_cache r \<longrightarrow>
      setReadCB (Some f) st r =
        replay st (getCache st) (r\<lparr>ignored_count := 0, start_on_read := False, read_cb := Some f\<rparr>)) \<and>
   (\<not> use_cache r \<longrightarrow>
      setReadCB (Some f) st r = r\<lparr>ignored_count := 0, start_on_read := False, read_cb := Some f\<rparr>)"
proof -
  have null: "setReadCB None st r = r\<lparr>read_cb := None\<rparr>"
    by (simp add: setReadCB_def)
  have silent: "read_calls (onRead st x k (setReadCB None st r)) = read_calls r"
    unfolding null using onRead_after_null[of st x k r] by simp
  have install: "setReadCB (Some f) st r =
     flushGop st (r\<lparr>ignored_count := 0, start_on_read := False, read_cb := Some f\<rparr>)"
    by (simp add: setReadCB_def)
  show ?thesis
    unfolding install using silent by (simp add: null flushGop_def)
qed

section \<open>Properties of the dispatcher and the buffer\<close>

lemma RingStorage_clone_same: "RingStorage_clone s = s"
  by (simp add: RingStorage_clone_def RingStorageInternal_clone_def)

lemma dispatcher_attach_refused:
  "\<not> isCurrentThread poller caller \<Longrightarrow>
     RingReaderDispatcher_attach caller a poller uc d = Inl Attach_not_in_poller_thread"
  by (simp add: RingReaderDispatcher_attach_def)

lemma dispatcher_attach_done:
  "isCurrentThread poller caller \<Longrightarrow>
     RingReaderDispatcher_attach caller a poller uc d =
       Inr (a, d\<lparr>reader_map := (reader_map d)(a \<mapsto> RingReader_new uc),
                 reader_size := reader_size d + 1\<rparr>, (reader_size d + 1, True))"
  by (simp add: RingReaderDispatcher_attach_def Let_def)

lemma buffer_attach_refused:
  assumes "\<not> isCurrentThread poller caller"
  shows "RingBuffer_attach caller a poller uc b =
     (Inl Attach_not_in_poller_thread,
      b\<lparr>dispatcher_map := (dispatcher_map b)(poller \<mapsto>
           (case dispatcher_map b poller of
              None \<Rightarrow> RingReaderDispatcher_new (RingStorage_clone (storage b))
            | Some d \<Rightarrow> d))\<rparr>)"
  by (simp add: RingBuffer_attach_def Let_def dispatcher_attach_refused[OF assms])

lemma buffer_attach_done:
  assumes "isCurrentThread poller caller"
  shows "fst (RingBuffer_attach caller a poller uc b) = Inr a"
  by (simp add: RingBuffer_attach_def Let_def dispatcher_attach_done[OF assms])

lemma buffer_attach_registered:
  assumes "isCurrentThread poller caller" "live_count b poller \<noteq> - 1"
  shows "readers_of (snd (RingBuffer_attach caller a poller uc b)) poller
           = (readers_of b poller)(a \<mapsto> RingReader_new uc) \<and>
         live_count (snd (RingBuffer_attach caller a poller uc b)) poller
           = live_count b poller + 1"
  using assms(2)
  by (auto simp add: RingBuffer_attach_def Let_def dispatcher_attach_done[OF assms(1)]
      onSizeChanged_def readers_of_def live_count_def readerCount_def RingReaderDispatcher_new_def
      split: option.splits)

text \<open>
  Claim C4. When the calling thread is not the thread of the poller, \<open>attach\<close> of the
  dispatcher and of the buffer end with the exception, and for every poller the registered
  readers and the live count are what they were: no subscriber is created or registered.
  When the calling thread is the thread of the poller, both return the handle of the new
  reader, the dispatcher has it registered in its initial state with a live count one
  higher, and so has the buffer (live counts are never negative).
\<close>

theorem attach_thread_affinity:
  "(\<not> isCurrentThread poller caller \<longrightarrow>
      fst (RingBuffer_attach caller a poller uc b) = Inl Attach_not_in_poller_thread \<and>
      RingReaderDispatcher_attach caller a poller uc d = Inl Attach_not_in_poller_thread \<and>
      (\<forall>p. readers_of (snd (RingBuffer_attach caller a poller uc b)) p = readers_of b p \<and>
           live_count (snd (RingBuffer_attach caller a poller uc b)) p = live_count b p)) \<and>
   (isCurrentThread poller caller \<longrightarrow>
      fst (RingBuffer_attach caller a poller uc b) = Inr a \<and>
      (\<exists>d'. RingReaderDispatcher_attach caller a poller uc d
               = Inr (a, d', (reader_size d + 1, True)) \<and>
            reader_map d' a = Some (RingReader_new uc) \<and>
            reader_size d' = reader_size d + 1)) \<and>
   (isCurrentThread poller caller \<and> 0 \<le> live_count b poller \<longrightarrow>
      readers_of (snd (RingBuffer_attach caller a poller uc b)) poller
        = (readers_of b poller)(a \<mapsto> RingReader_new uc) \<and>
      live_count (snd (RingBuffer_attach caller a poller uc b)) poller = live_count b poller + 1)"
proof (cases "isCurrentThread poller caller")
  case True
  have "0 \<le> live_count b poller \<Longrightarrow> live_count b poller \<noteq> - 1" by simp
  from buffer_attach_registered[OF True this, of a uc] True show ?thesis
    by (simp add: buffer_attach_done dispatcher_attach_done)
next
  case False
  have "readers_of (snd (RingBuffer_attach caller a poller uc b)) p = readers_of b p \<and>
        live_count (snd (RingBuffer_attach caller a poller uc b)) p = live_count b p" for p
    by (simp add: buffer_attach_refused[OF False] readers_of_def live_count_def
        RingReaderDispatcher_new_def readerCount_def split: option.splits)
  with False show ?thesis
    by (simp add: buffer_attach_refused dispatcher_attach_refused)
qed

text \<open>
  Claim C10. The buffer has no dispatcher for the poller and the call comes from another
  thread. \<open>attach\<close> ends with the exception, and the buffer it leaves differs from the
  buffer before only in the dispatcher map, which now holds for this poller a new dispatcher,
  with live count 0, no readers, and a clone of the buffer's cache.
\<close>

theorem failed_attach_leaves_dispatcher:
  assumes "dispatcher_map b poller = None" "\<not> isCurrentThread poller caller"
  shows "fst (RingBuffer_attach caller a poller uc b) = Inl Attach_not_in_poller_thread \<and>
         snd (RingBuffer_attach caller a poller uc b) =
           b\<lparr>dispatcher_map := (dispatcher_map b)(poller \<mapsto>
                RingReaderDispatcher_new (RingStorage_clone (storage b)))\<rparr> \<and>
         RingReaderDispatcher_new (RingStorage_clone (storage b)) =
           \<lparr>reader_size = 0, dispatcher_storage = storage b, reader_map = Map.empty\<rparr>"
  using assms
  by (simp add: buffer_attach_refused RingReaderDispatcher_new_def RingStorage_clone_same)

text \<open>
  Claim C7. With a delegate installed, \<open>write\<close> only calls \<open>onWrite\<close> of the delegate
  with the frame and the flag: nothing else of the buffer changes, so the cache gets no
  entry and no task is posted to any poller.
\<close>

theorem write_with_delegate:
  assumes "delegate b = Some dl"
  shows "RingBuffer_write x k b = b\<lparr>delegate_calls := delegate_calls b @ [(dl, x, k)]\<rparr> \<and>
         storage (RingBuffer_write x k b) = storage b \<and>
         posted (RingBuffer_write x k b) = posted b \<and>
         dispatcher_map (RingBuffer_write x k b) = dispatcher_map b"
  using assms by (simp add: RingBuffer_write_def)




theorem attach_thread_affinity_witness:
  "fst (RingBuffer_attach 2 7 (EventPoller 1) True (RingBuffer_new 0 10 None :: string RingBuffer))
     = Inl Attach_not_in_poller_thread \<and>
   readers_of (snd (RingBuffer_attach 2 7 (EventPoller 1) True
     (RingBuffer_new 0 10 None :: string RingBuffer))) (EventPoller 1) = Map.empty \<and>
   fst (RingBuffer_attach 1 7 (EventPoller 1) True (RingBuffer_new 0 10 None :: string RingBuffer))
     = Inr 7"
proof -
  let ?b = "RingBuffer_new 0 10 None :: string RingBuffer"
  have other: "\<not> isCurrentThread (EventPoller 1) 2" and own: "isCurrentThread (EventPoller 1) 1"
    by (simp_all add: isCurrentThread_def)
  note refused = attach_thread_affinity[of "EventPoller 1" 2 7 True ?b "RingReaderDispatcher_new (RingStorage_new 0 10)",
      THEN conjunct1, THEN mp, OF other]
  note accepted = attach_thread_affinity[of "EventPoller 1" 1 7 True ?b "RingReaderDispatcher_new (RingStorage_new 0 10)",
      THEN conjunct2, THEN conjunct1, THEN mp, OF own]
  have e: "readers_of ?b (EventPoller 1) = Map.empty"
    by (simp add: readers_of_def RingBuffer_new_def)
  note r1 = refused[THEN conjunct1]
  note r3 = refused[THEN conjunct2, THEN conjunct2, THEN spec, of "EventPoller 1", THEN conjunct1]
  note a1 = accepted[THEN conjunct1]
  from r3 e have r4: "readers_of (snd (RingBuffer_attach 2 7 (EventPoller 1) True ?b))
      (EventPoller 1) = Map.empty" by (rule trans)
  from r1 r4 a1 show ?thesis by (intro conjI)
qed

theorem failed_attach_leaves_dispatcher_witness:
  "fst (RingBuffer_attach 2 7 (EventPoller 1) True
      (writes [(True, ''A'')] (RingBuffer_new 0 10 None))) = Inl Attach_not_in_poller_thread \<and>
   map_option reader_size (dispatcher_map (snd (RingBuffer_attach 2 7 (EventPoller 1) True
      (writes [(True, ''A'')] (RingBuffer_new 0 10 None)))) (EventPoller 1)) = Some 0 \<and>
   map_option (\<lambda>d. getCache (dispatcher_storage d)) (dispatcher_map (snd (RingBuffer_attach 2 7
      (EventPoller 1) True (writes [(True, ''A'')] (RingBuffer_new 0 10 None)))) (EventPoller 1))
     = Some [(True, ''A'')]"
proof -
  let ?b = "writes [(True, ''A'')] (RingBuffer_new 0 10 None) :: string RingBuffer"
  have none: "dispatcher_map ?b (EventPoller 1) = None"
    by (simp add: RingBuffer_new_def RingBuffer_write_def)
  have other: "\<not> isCurrentThread (EventPoller 1) 2"
    by (simp add: isCurrentThread_def)
  have c: "getCache (storage ?b) = [(True, ''A'')]"
    by (simp add: RingBuffer_new_def RingBuffer_write_def cache_eval)
  note t = failed_attach_leaves_dispatcher[OF none other, of 7 True]
  note t1 = t[THEN conjunct1]
  note t2 = t[THEN conjunct2, THEN conjunct1]
  note t3 = t[THEN conjunct2, THEN conjunct2]
  show ?thesis unfolding t1 t2 t3 using c by simp
qed

theorem write_with_delegate_witness:
  "delegate_calls (RingBuffer_write ''X'' True (setDelegate (Some 9) (RingBuffer_new 0 10 None)))
     = [(9, ''X'', True)] \<and>
   getCache (storage (RingBuffer_write ''X'' True (setDelegate (Some 9) (RingBuffer_new 0 10 None))))
     = []"
proof -
  let ?b = "setDelegate (Some 9) (RingBuffer_new 0 10 None) :: string RingBuffer"
  have dl: "delegate ?b = Some 9" by (simp add: setDelegate_def)
  note t = write_with_delegate[OF dl, of "''X''" True]
  have c: "getCache (storage ?b) = []" "delegate_calls ?b = []"
    by (simp_all add: setDelegate_def RingBuffer_new_def cache_eval)
  from t have "delegate_calls (RingBuffer_write ''X'' True ?b) = delegate_calls ?b @ [(9, ''X'', True)]"
    "storage (RingBuffer_write ''X'' True ?b) = storage ?b" by simp_all
  with c show ?thesis by simp
qed


theorem setReadCB_null_keeps_gating_witness:
  "setReadCB None (write_all [(True, ''A''), (False, ''B'')] (RingStorage_new 0 10))
     \<lparr>read_cb = Some 1, detach_cb = None, use_cache = True, start_on_read = True,
      ignored_count = 3, read_calls = []\<rparr>
     = \<lparr>read_cb = None, detach_cb = None, use_cache = True, start_on_read = True,
        ignored_count = 3, read_calls = []\<rparr> \<and>
   setReadCB (Some 2) (write_all [(True, ''A''), (False, ''B'')] (RingStorage_new 0 10))
     \<lparr>read_cb = None, detach_cb = None, use_cache = True, start_on_read = False,
      ignored_count = 3, read_calls = []\<rparr>
     = \<lparr>read_cb = Some 2, detach_cb = None, use_cache = True, start_on_read = True,
        ignored_count = 0, read_calls = [(2, ''A''), (2, ''B'')]\<rparr>"
proof -
  let ?st = "write_all [(True, ''A''), (False, ''B'')] (RingStorage_new 0 10) :: string RingStorage"
  let ?r1 = "\<lparr>read_cb = Some 1, detach_cb = None, use_cache = True, start_on_read = True,
      ignored_count = 3, read_calls = []\<rparr> :: string RingReader"
  let ?r2 = "\<lparr>read_cb = None, detach_cb = None, use_cache = True, start_on_read = False,
      ignored_count = 3, read_calls = []\<rparr> :: string RingReader"
  note n = setReadCB_null_keeps_gating[where st="?st" and r="?r1", THEN conjunct1]
  have uc: "use_cache ?r2" by simp
  note s = setReadCB_null_keeps_gating[where st="?st" and r="?r2" and f=2, THEN conjunct2,
      THEN conjunct2, THEN conjunct2, THEN conjunct2, THEN conjunct2, THEN conjunct2,
      THEN conjunct1, THEN mp, OF uc]
  have c: "getCache ?st = [(True, ''A''), (False, ''B'')]" by (simp add: cache_eval)
  show ?thesis unfolding n s c by (simp add: onRead_def call_read_cb_def)
qed

end
